theory Spec2Isabelle
  imports Main "HOL-Library.Word"
begin

unbundle bit_operations_syntax

section \<open>The Terse codec of \<^verbatim>\<open>src/include/Terse.hpp\<close>\<close>

text \<open>
  The class \<^verbatim>\<open>jpa::Terse\<close> packs frames of integers into a byte buffer. Every frame is
  cut into blocks of \<^verbatim>\<open>d_block\<close> values; each block is written as a header announcing
  a bit width, followed by the block's values at that width.

  Conventions of the embedding:
  \<^item> an input or output element type \<^verbatim>\<open>T\<close> is a word type \<open>'a word\<close> together with a
    flag that says whether \<^verbatim>\<open>T\<close> is signed (\<^verbatim>\<open>std::is_signed_v<T>\<close>);
  \<^item> an iterator with a size is the list of the values it yields;
  \<^item> \<^verbatim>\<open>size_t\<close> and \<^verbatim>\<open>unsigned\<close> counters are \<open>nat\<close>: none of them is near its
    wrap-around for a buffer that fits in memory;
  \<^item> an \<^verbatim>\<open>assert\<close> that fails, and an access outside the packed buffer (undefined
    behaviour in the source), is an error value;
  \<^item> a \<^verbatim>\<open>Bit_pointer\<close> is the absolute bit position inside \<^verbatim>\<open>d_terse_data\<close>, a
    \<^verbatim>\<open>std::uint8_t const*\<close> into the buffer is a byte offset.
\<close>

subsection \<open>Data\<close>

type_synonym byte = "8 word"

datatype error =
    ShapeMismatch
  | SignednessMismatch
  | WidthOverflow
  | FrameIndexOutOfRange
  | OutOfBounds

record terse =
  d_signed :: bool
  d_block :: nat
  d_size :: nat
  d_prolix_bits :: nat
  d_dim :: "nat list"
  d_terse_data :: "byte list"
  d_terse_frames :: "nat list"

definition number_of_frames :: "terse \<Rightarrow> nat" where
  "number_of_frames t = length (d_terse_frames t)"

definition terse_size :: "terse \<Rightarrow> nat" where
  "terse_size t = length (d_terse_data t)"

definition bits_per_val :: "terse \<Rightarrow> nat" where
  "bits_per_val t = d_prolix_bits t"

subsection \<open>Bit cursor\<close>

text \<open>
  Modelled from the spec: \<^verbatim>\<open>Bit_pointer.hpp\<close> (the classes \<^verbatim>\<open>Bit_pointer\<close> and
  \<^verbatim>\<open>Bit_range\<close>) is not among the sources. Section 4.1 of the specification fixes what
  is used here: bits within a byte are numbered least-significant-first, bit \<open>i\<close> of a
  range at cursor \<open>c\<close> lives at absolute bit position \<open>c + i\<close>, and writes are OR-merged
  into bytes that the encoder has zeroed. An access that leaves the buffer is reported
  as \<open>OutOfBounds\<close>.
\<close>

definition get_bit :: "byte list \<Rightarrow> nat \<Rightarrow> bool" where
  "get_bit buf c = bit (buf ! (c div 8)) (c mod 8)"

definition or_bit :: "byte list \<Rightarrow> nat \<Rightarrow> bool \<Rightarrow> byte list" where
  "or_bit buf c b =
     (if b then buf[c div 8 := (buf ! (c div 8)) OR push_bit (c mod 8) 1] else buf)"

primrec or_bits :: "byte list \<Rightarrow> nat \<Rightarrow> bool list \<Rightarrow> byte list" where
  "or_bits buf c [] = buf"
| "or_bits buf c (b # bs) = or_bits (or_bit buf c b) (Suc c) bs"

definition or_range :: "byte list \<Rightarrow> nat \<Rightarrow> int \<Rightarrow> nat \<Rightarrow> byte list" where
  "or_range buf c v n = or_bits buf c (map (bit v) [0..<n])"

definition range_bits :: "byte list \<Rightarrow> nat \<Rightarrow> nat \<Rightarrow> bool list" where
  "range_bits buf c n = map (\<lambda>i. get_bit buf (c + i)) [0..<n]"

definition range_value :: "byte list \<Rightarrow> nat \<Rightarrow> nat \<Rightarrow> 'v::comm_semiring_1" where
  "range_value buf c n = horner_sum of_bool 2 (range_bits buf c n)"

definition read_bit :: "byte list \<Rightarrow> nat \<Rightarrow> error + bool" where
  "read_bit buf c = (if c < 8 * length buf then Inr (get_bit buf c) else Inl OutOfBounds)"

definition write_bit :: "byte list \<Rightarrow> nat \<Rightarrow> bool \<Rightarrow> error + byte list" where
  "write_bit buf c b = (if c < 8 * length buf then Inr (or_bit buf c b) else Inl OutOfBounds)"

definition read_bits :: "byte list \<Rightarrow> nat \<Rightarrow> nat \<Rightarrow> error + 'v::comm_semiring_1" where
  "read_bits buf c n =
     (if c + n \<le> 8 * length buf then Inr (range_value buf c n) else Inl OutOfBounds)"

definition write_bits :: "byte list \<Rightarrow> nat \<Rightarrow> int \<Rightarrow> nat \<Rightarrow> error + byte list" where
  "write_bits buf c v n =
     (if c + n \<le> 8 * length buf then Inr (or_range buf c v n) else Inl OutOfBounds)"

text \<open>
  Modelled from the spec: \<^verbatim>\<open>Bit_range::append_range\<close> is not among the sources. Section 4.2
  (value packing): each value is written as a \<open>w\<close>-bit field, in order, the low \<open>w\<close> bits
  of its binary representation (unsigned data) or of its two's-complement representation
  (signed data). The values arrive here already read as integers.
\<close>

fun append_range :: "byte list \<Rightarrow> nat \<Rightarrow> nat \<Rightarrow> int list \<Rightarrow> error + (byte list \<times> nat)" where
  "append_range buf c w [] = Inr (buf, c)"
| "append_range buf c w (v # vs) =
     (case write_bits buf c v w of
        Inl e \<Rightarrow> Inl e
      | Inr buf' \<Rightarrow> append_range buf' (c + w) w vs)"

text \<open>
  Modelled from the spec: \<^verbatim>\<open>Bit_range::get_range\<close> and the conversion of a
  \<^verbatim>\<open>Bit_range\<close> to an integer are not among the sources. Section 4.2 (value unpacking):
  read \<open>w\<close> bits per value; if the output type is signed, sign-extend from bit \<open>w - 1\<close>;
  if it is unsigned, zero-extend; if the output element width is smaller than \<open>w\<close>,
  clamp positive overflow to the output type's maximum and, for signed outputs, negative
  overflow to its minimum.
\<close>

definition extend_saturate :: "bool \<Rightarrow> nat \<Rightarrow> int \<Rightarrow> 'b::len word" where
  "extend_saturate out_signed w v =
     (let x = (if out_signed then signed_take_bit (w - 1) v else v);
          hi = (if out_signed then 2 ^ (LENGTH('b) - 1) - 1 else 2 ^ LENGTH('b) - 1);
          lo = (if out_signed then - (2 ^ (LENGTH('b) - 1)) else 0)
      in word_of_int (if LENGTH('b) < w then max lo (min hi x) else x))"

fun get_range :: "bool \<Rightarrow> byte list \<Rightarrow> nat \<Rightarrow> nat \<Rightarrow> nat \<Rightarrow> error + ('b::len word list \<times> nat)" where
  "get_range out_signed buf c w 0 = Inr ([], c)"
| "get_range out_signed buf c w (Suc k) =
     (case read_bits buf c w of
        Inl e \<Rightarrow> Inl e
      | Inr v \<Rightarrow>
          (case get_range out_signed buf (c + w) w k of
             Inl e \<Rightarrow> Inl e
           | Inr (vs, c') \<Rightarrow> Inr (extend_saturate out_signed w v # vs, c')))"

subsection \<open>Block width\<close>

text \<open>
  \<^verbatim>\<open>f_highest_set_bit\<close>, unsigned branch: the number of right shifts that empty the value.
\<close>

function f_highest_set_bit_u :: "'a::len word \<Rightarrow> nat" where
  "f_highest_set_bit_u val =
     (if val = 0 then 0 else Suc (f_highest_set_bit_u (drop_bit 1 val)))"
  by pat_completeness auto
termination
proof (relation "measure unat", goal_cases)
  case 1
  show ?case by simp
next
  case (2 val)
  then have "0 < unat val"
    by (simp add: unat_gt_0)
  moreover have "unat (drop_bit 1 val) = drop_bit 1 (unat val)"
    by (rule unat_drop_bit_eq)
  moreover have "drop_bit 1 (unat val) = unat val div 2"
    by (simp add: drop_bit_eq_div)
  ultimately show ?case by simp
qed

declare f_highest_set_bit_u.simps [simp del]

text \<open>
  \<^verbatim>\<open>std::abs\<close> on the element type, read back into the element type. For types narrower
  than \<^verbatim>\<open>int\<close> the absolute value is computed in \<^verbatim>\<open>int\<close> and truncated by the
  assignment; for \<^verbatim>\<open>int\<close> and wider the most negative value overflows, and the model
  takes the two's-complement result (the value itself). Both give the same bit pattern.
\<close>

definition wabs :: "'a::len word \<Rightarrow> 'a word" where
  "wabs v = (if sint v < 0 then - v else v)"

text \<open>\<^verbatim>\<open>f_highest_set_bit\<close>, signed branch.\<close>

definition f_highest_set_bit_s :: "'a::len word \<Rightarrow> nat" where
  "f_highest_set_bit_s val = (if val = 0 then 0 else 1 + f_highest_set_bit_u (wabs val))"

definition f_highest_set_bit :: "bool \<Rightarrow> 'a::len word \<Rightarrow> nat" where
  "f_highest_set_bit sg val = (if sg then f_highest_set_bit_s val else f_highest_set_bit_u val)"

text \<open>The inner loop of \<^verbatim>\<open>f_compress\<close> that ORs the values of a block into \<^verbatim>\<open>setbits\<close>.\<close>

definition block_setbits :: "bool \<Rightarrow> 'a::len word list \<Rightarrow> 'a word" where
  "block_setbits sg blk = fold (\<lambda>p setbits. setbits OR (if sg then wabs p else p)) blk 0"

definition significant_bits :: "bool \<Rightarrow> 'a::len word list \<Rightarrow> nat" where
  "significant_bits sg blk = f_highest_set_bit sg (block_setbits sg blk)"

definition value_int :: "bool \<Rightarrow> 'a::len word \<Rightarrow> int" where
  "value_int sg x = (if sg then sint x else uint x)"

subsection \<open>Encoder\<close>

text \<open>
  The header of one block, lines 518 to 536 of \<^verbatim>\<open>f_compress\<close>. The result is the
  buffer, the bit pointer behind the header, and \<^verbatim>\<open>prevbits\<close>.
\<close>

definition write_header :: "byte list \<Rightarrow> nat \<Rightarrow> nat \<Rightarrow> nat \<Rightarrow> error + (byte list \<times> nat \<times> nat)" where
  "write_header buf bitp prevbits w =
     (if prevbits = w then
        (case write_bit buf bitp True of
           Inl e \<Rightarrow> Inl e
         | Inr buf' \<Rightarrow> Inr (buf', bitp + 1, prevbits))
      else if w < 7 then
        (case write_bits buf (bitp + 1) (int w) 3 of
           Inl e \<Rightarrow> Inl e
         | Inr buf' \<Rightarrow> Inr (buf', bitp + 1 + 3, w))
      else if w < 10 then
        (case write_bits buf (bitp + 1) (7 + push_bit 3 (int (w - 7))) 5 of
           Inl e \<Rightarrow> Inl e
         | Inr buf' \<Rightarrow> Inr (buf', bitp + 1 + 5, w))
      else
        (case write_bits buf (bitp + 1) (31 + push_bit 5 (int (w - 10))) 11 of
           Inl e \<Rightarrow> Inl e
         | Inr buf' \<Rightarrow> Inr (buf', bitp + 1 + 11, w)))"

text \<open>
  One pass of the loop of \<^verbatim>\<open>f_compress\<close> over the block at the front of the remaining
  data. The loop state is \<^verbatim>\<open>prevbits\<close>, \<^verbatim>\<open>bitp\<close>, the buffer and \<^verbatim>\<open>d_prolix_bits\<close>.
\<close>

definition f_compress_block ::
  "bool \<Rightarrow> nat \<Rightarrow> 'a::len word list \<Rightarrow> nat \<times> nat \<times> byte list \<times> nat
     \<Rightarrow> error + (nat \<times> nat \<times> byte list \<times> nat)" where
  "f_compress_block sg B data st =
     (case st of (prevbits, bitp, buf, prolix_bits) \<Rightarrow>
        let blk = take B data;
            w = significant_bits sg blk;
            prolix_bits' = max prolix_bits w
        in (case write_header buf bitp prevbits w of
              Inl e \<Rightarrow> Inl e
            | Inr (buf1, bitp1, prevbits') \<Rightarrow>
                if w \<noteq> 0 then
                  (case append_range buf1 bitp1 w (map (value_int sg) blk) of
                     Inl e \<Rightarrow> Inl e
                   | Inr (buf2, bitp2) \<Rightarrow> Inr (prevbits', bitp2, buf2, prolix_bits'))
                else Inr (prevbits', bitp1, buf1, prolix_bits')))"

text \<open>
  The loop of \<^verbatim>\<open>f_compress\<close>. The list holds the values from index \<^verbatim>\<open>from\<close> on, so
  \<^verbatim>\<open>from < d_size\<close> is \<open>data \<noteq> []\<close> and \<^verbatim>\<open>from += d_block\<close> drops a block. With
  \<^verbatim>\<open>d_block = 0\<close> the source loop writes header bits until it leaves the buffer.
\<close>

function f_compress_loop ::
  "bool \<Rightarrow> nat \<Rightarrow> 'a::len word list \<Rightarrow> nat \<times> nat \<times> byte list \<times> nat
     \<Rightarrow> error + (nat \<times> nat \<times> byte list \<times> nat)" where
  "f_compress_loop sg B data st =
     (if data = [] then Inr st
      else (case f_compress_block sg B data st of
              Inl e \<Rightarrow> Inl e
            | Inr st' \<Rightarrow> f_compress_loop sg B (drop B data) st'))"
  by pat_completeness auto
termination
proof (relation "measure (\<lambda>(sg, B, data, prevbits, bitp, buf, prolix_bits).
                            length data + (8 * length buf - bitp))", goal_cases)
  case 1
  show ?case by simp
next
  case (2 sg B data st st')
  have len_or_bit: "length (or_bit b c x) = length b" for b c x
    by (simp add: or_bit_def)
  have len_or_bits: "length (or_bits b c bs) = length b" for b c bs
    by (induction bs arbitrary: b c) (simp_all add: len_or_bit)
  have len_or_range: "length (or_range b c v n) = length b" for b c v n
    by (simp add: or_range_def len_or_bits)
  have app: "append_range b c w vs = Inr (b', c') \<Longrightarrow> c \<le> c' \<and> length b' = length b"
    for b c w vs b' c'
  proof (induction vs arbitrary: b c)
    case Nil
    then show ?case by simp
  next
    case (Cons v vs)
    then show ?case
      by (fastforce simp: write_bits_def len_or_range split: if_splits)
  qed
  have hdr: "write_header b c p w = Inr (b1, c1, p1)
               \<Longrightarrow> c < 8 * length b \<and> c < c1 \<and> length b1 = length b"
    for b c p w b1 c1 p1
    by (auto simp: write_header_def write_bit_def write_bits_def len_or_bit len_or_range
             split: if_splits)
  obtain prevbits bitp buf pb where st: "st = (prevbits, bitp, buf, pb)"
    by (cases st) auto
  obtain prevbits' bitp' buf' pb' where st': "st' = (prevbits', bitp', buf', pb')"
    by (cases st') auto
  from 2(2) have "bitp < 8 * length buf \<and> bitp < bitp' \<and> length buf' = length buf"
    unfolding st st' f_compress_block_def
    by (auto simp: Let_def split: sum.splits prod.splits if_splits dest!: hdr app)
  moreover from 2(1) have "B = 0 \<or> length (drop B data) < length data"
    by (cases data) auto
  ultimately show ?case
    unfolding st st' by auto
qed

declare f_compress_loop.simps [simp del]

text \<open>
  The buffer bound of \<^verbatim>\<open>f_compress\<close>,
  \<^verbatim>\<open>std::ceil(d_size * (sizeof(T) + 12.0L / (d_block * 8)))\<close>, in exact arithmetic:
  \<open>d_size * sizeof(T)\<close> is a whole number, so the ceiling falls on \<open>12 * d_size / (8 * d_block)\<close>.
\<close>

definition buffer_bound :: "nat \<Rightarrow> nat \<Rightarrow> nat \<Rightarrow> nat" where
  "buffer_bound n sizeof_T B = n * sizeof_T + (12 * n + 8 * B - 1) div (8 * B)"

text \<open>\<^verbatim>\<open>std::vector::resize(n, 0)\<close>.\<close>

definition resize :: "nat \<Rightarrow> byte list \<Rightarrow> byte list" where
  "resize n buf = take n buf @ replicate (n - length buf) 0"

text \<open>
  \<^verbatim>\<open>f_compress\<close>: grow the buffer by the bound, encode the \<^verbatim>\<open>d_size\<close> values behind the
  old end, and resize to \<^verbatim>\<open>1 + (bitp - d_terse_data.data()) / 8\<close> bytes. With
  \<^verbatim>\<open>d_block = 0\<close> the bound divides by zero and its conversion to \<^verbatim>\<open>size_t\<close> is
  undefined; the model reports that as \<open>OutOfBounds\<close>.
\<close>

definition f_compress :: "terse \<Rightarrow> bool \<Rightarrow> 'a::len word list \<Rightarrow> error + terse" where
  "f_compress t sg data =
     (if d_block t = 0 then Inl OutOfBounds
      else
        let prev_data_size = length (d_terse_data t);
            buf = d_terse_data t
                    @ replicate (buffer_bound (d_size t) (LENGTH('a) div 8) (d_block t)) 0
        in (case f_compress_loop sg (d_block t) (take (d_size t) data)
                   (0, 8 * prev_data_size, buf, d_prolix_bits t) of
              Inl e \<Rightarrow> Inl e
            | Inr (prevbits, bitp, buf', prolix_bits) \<Rightarrow>
                Inr (t\<lparr>d_prolix_bits := prolix_bits,
                        d_terse_data := resize (1 + bitp div 8) buf'\<rparr>)))"

text \<open>
  The constructors \<^verbatim>\<open>Terse()\<close> and \<^verbatim>\<open>Terse(data, size, block)\<close>. The default constructor
  leaves \<^verbatim>\<open>d_signed\<close> and \<^verbatim>\<open>d_size\<close> uninitialised: they are parameters here.
\<close>

definition Terse_empty :: "bool \<Rightarrow> nat \<Rightarrow> terse" where
  "Terse_empty sg0 size0 =
     \<lparr>d_signed = sg0, d_block = 12, d_size = size0, d_prolix_bits = 0, d_dim = [],
      d_terse_data = [], d_terse_frames = []\<rparr>"

definition Terse_data :: "bool \<Rightarrow> 'a::len word list \<Rightarrow> nat \<Rightarrow> error + terse" where
  "Terse_data sg data block =
     f_compress \<lparr>d_signed = sg, d_block = block, d_size = length data, d_prolix_bits = 0,
                 d_dim = [], d_terse_data = [], d_terse_frames = [0]\<rparr> sg data"

text \<open>\<^verbatim>\<open>push_back(data, size)\<close>; the two assertions are the errors.\<close>

definition push_back :: "terse \<Rightarrow> bool \<Rightarrow> 'a::len word list \<Rightarrow> error + terse" where
  "push_back t sg data =
     (if number_of_frames t = 0 then
        f_compress (t\<lparr>d_size := length data, d_signed := sg,
                      d_terse_frames := d_terse_frames t @ [0]\<rparr>) sg data
      else if d_size t \<noteq> length data then Inl ShapeMismatch
      else if d_signed t \<noteq> sg then Inl SignednessMismatch
      else f_compress (t\<lparr>d_terse_frames := d_terse_frames t @ [0]\<rparr>) sg data)"

subsection \<open>Decoder\<close>

text \<open>
  The header parse shared by \<^verbatim>\<open>prolix\<close> (lines 362 to 373) and \<^verbatim>\<open>f_find_terse_frame\<close>
  (lines 569 to 580). The result is \<^verbatim>\<open>significant_bits\<close> and the bit pointer behind the
  header.
\<close>

definition read_header :: "byte list \<Rightarrow> nat \<Rightarrow> nat \<Rightarrow> error + (nat \<times> nat)" where
  "read_header buf bitp sb =
     (case read_bit buf bitp of
        Inl e \<Rightarrow> Inl e
      | Inr b \<Rightarrow>
          if b then Inr (sb, bitp + 1)
          else (case read_bits buf (bitp + 1) 3 of
                  Inl e \<Rightarrow> Inl e
                | Inr s3 \<Rightarrow>
                    if s3 = 7 then
                      (case read_bits buf (bitp + 1 + 3) 2 of
                         Inl e \<Rightarrow> Inl e
                       | Inr s2 \<Rightarrow>
                           if s3 + s2 = 10 then
                             (case read_bits buf (bitp + 1 + 3 + 2) 6 of
                                Inl e \<Rightarrow> Inl e
                              | Inr s6 \<Rightarrow> Inr (s3 + s2 + s6, bitp + 1 + 3 + 2 + 6))
                           else Inr (s3 + s2, bitp + 1 + 3 + 2))
                    else Inr (s3, bitp + 1 + 3)))"

text \<open>
  The loop of \<^verbatim>\<open>prolix\<close> for an integral output type; the values written to
  \<^verbatim>\<open>begin[0 .. size())\<close> are collected in a list.
\<close>

function prolix_loop ::
  "bool \<Rightarrow> nat \<Rightarrow> nat \<Rightarrow> byte list \<Rightarrow> nat \<Rightarrow> nat \<Rightarrow> nat \<Rightarrow> 'b::len word list
     \<Rightarrow> error + ('b word list \<times> nat)" where
  "prolix_loop out_signed B sz buf from bitp sb out =
     (if from < sz then
        (case read_header buf bitp sb of
           Inl e \<Rightarrow> Inl e
         | Inr (sb', bitp1) \<Rightarrow>
             if sb' = 0 then
               prolix_loop out_signed B sz buf (from + B) bitp1 sb'
                 (out @ replicate (min sz (from + B) - from) 0)
             else
               (case get_range out_signed buf bitp1 sb' (min sz (from + B) - from) of
                  Inl e \<Rightarrow> Inl e
                | Inr (vals, bitp2) \<Rightarrow>
                    prolix_loop out_signed B sz buf (from + B) bitp2 sb' (out @ vals)))
      else Inr (out, bitp))"
  by pat_completeness auto
termination
proof (relation "measure (\<lambda>(out_signed, B, sz, buf, from, bitp, sb, out).
                            (sz - from) + (8 * length buf - bitp))", goal_cases)
  case 1
  show ?case by simp
next
  case (2 out_signed B sz buf "from" bitp sb out x sb' bitp1)
  then have "bitp < 8 * length buf \<and> bitp < bitp1"
    by (auto simp: read_header_def read_bit_def read_bits_def split: if_splits sum.splits)
  with 2 show ?case by auto
next
  case (3 out_signed B sz buf "from" bitp sb out x sb' bitp1 y vals bitp2)
  have gr: "get_range s b c w k = Inr (vs, c') \<Longrightarrow> c \<le> c'"
    for s b c w k c' and vs :: "'a word list"
  proof (induction k arbitrary: c vs)
    case 0
    then show ?case by simp
  next
    case (Suc k)
    then show ?case
      by (fastforce split: sum.splits prod.splits)
  qed
  from 3 have "bitp < 8 * length buf \<and> bitp < bitp1"
    by (auto simp: read_header_def read_bit_def read_bits_def split: if_splits sum.splits)
  moreover from 3 have "bitp1 \<le> bitp2"
    by (auto dest: gr)
  ultimately show ?case using 3 by auto
qed

declare prolix_loop.simps [simp del]

text \<open>The loop of \<^verbatim>\<open>f_find_terse_frame\<close>, which skips the values of every block.\<close>

function find_frame_loop :: "nat \<Rightarrow> nat \<Rightarrow> byte list \<Rightarrow> nat \<Rightarrow> nat \<Rightarrow> nat \<Rightarrow> error + nat" where
  "find_frame_loop B sz buf from bitp sb =
     (if from < sz then
        (case read_header buf bitp sb of
           Inl e \<Rightarrow> Inl e
         | Inr (sb', bitp1) \<Rightarrow> find_frame_loop B sz buf (from + B) (bitp1 + sb' * B) sb')
      else Inr bitp)"
  by pat_completeness auto
termination
proof (relation "measure (\<lambda>(B, sz, buf, from, bitp, sb).
                            (sz - from) + (8 * length buf - bitp))", goal_cases)
  case 1
  show ?case by simp
next
  case (2 B sz buf "from" bitp sb x sb' bitp1)
  then have "bitp < 8 * length buf \<and> bitp < bitp1"
    by (auto simp: read_header_def read_bit_def read_bits_def split: if_splits sum.splits)
  with 2 show ?case by auto
qed

declare find_frame_loop.simps [simp del]

text \<open>
  \<^verbatim>\<open>f_find_terse_frame\<close>: the byte offset of a frame, resolved from the frame before it
  when its entry of \<^verbatim>\<open>d_terse_frames\<close> is 0. The entry is set to one plus the whole
  bytes between the start of the previous frame and the end of the scan.
\<close>

fun f_find_terse_frame :: "terse \<Rightarrow> nat \<Rightarrow> error + (nat \<times> terse)" where
  "f_find_terse_frame t 0 =
     (if 0 < length (d_terse_frames t) then Inr (d_terse_frames t ! 0, t)
      else Inl OutOfBounds)"
| "f_find_terse_frame t (Suc k) =
     (if \<not> Suc k < length (d_terse_frames t) then Inl OutOfBounds
      else if d_terse_frames t ! Suc k = 0 then
        (case f_find_terse_frame t k of
           Inl e \<Rightarrow> Inl e
         | Inr (terse_begin, t1) \<Rightarrow>
             (case find_frame_loop (d_block t1) (d_size t1) (d_terse_data t1)
                     0 (8 * terse_begin) 0 of
                Inl e \<Rightarrow> Inl e
              | Inr bitp \<Rightarrow>
                  let frames = (d_terse_frames t1)
                                 [Suc k := 1 + (bitp - 8 * terse_begin) div 8]
                  in Inr (frames ! Suc k, t1\<lparr>d_terse_frames := frames\<rparr>)))
      else Inr (d_terse_frames t ! Suc k, t))"

text \<open>
  \<^verbatim>\<open>prolix(begin, frame)\<close> for an integral output type \<open>'b word\<close> whose signedness is
  \<open>out_signed\<close>.
\<close>

definition prolix :: "terse \<Rightarrow> bool \<Rightarrow> nat \<Rightarrow> error + ('b::len word list \<times> terse)" where
  "prolix t out_signed frame =
     (if \<not> frame < number_of_frames t then Inl FrameIndexOutOfRange
      else (case f_find_terse_frame t frame of
              Inl e \<Rightarrow> Inl e
            | Inr (terse_begin, t1) \<Rightarrow>
                if d_signed t1 \<and> \<not> out_signed then Inl SignednessMismatch
                else (case prolix_loop out_signed (d_block t1) (d_size t1) (d_terse_data t1)
                             0 (8 * terse_begin) 0 [] of
                        Inl e \<Rightarrow> Inl e
                      | Inr (out, bitp) \<Rightarrow>
                          Inr (out,
                               if Suc frame < length (d_terse_frames t1) then
                                 t1\<lparr>d_terse_frames := (d_terse_frames t1)
                                      [Suc frame := 1 + (bitp - 8 * terse_begin) div 8]\<rparr>
                               else t1))))"

subsection \<open>Definitions used to state the properties\<close>

text \<open>Sequencing of fallible steps: the first error ends the run.\<close>

definition and_then :: "error + 'a \<Rightarrow> ('a \<Rightarrow> error + 'b) \<Rightarrow> error + 'b" where
  "and_then r f = (case r of Inl e \<Rightarrow> Inl e | Inr x \<Rightarrow> f x)"

text \<open>
  The block width in the words of the specification (section 4.2, block segmentation):
  for unsigned data the position of the highest set bit of the OR of the values, for
  signed data one more than the bits needed for the OR of the absolute values, and 0 when
  every value is 0. The absolute values are taken in the integers.
\<close>

fun bit_length :: "nat \<Rightarrow> nat" where
  "bit_length n = (if n = 0 then 0 else Suc (bit_length (n div 2)))"

declare bit_length.simps [simp del]

definition spec_width :: "bool \<Rightarrow> 'a::len word list \<Rightarrow> nat" where
  "spec_width sg blk =
     (if sg then
        (let m = fold (\<lambda>v acc. acc OR nat \<bar>sint v\<bar>) blk 0
         in if m = 0 then 0 else bit_length m + 1)
      else bit_length (fold (\<lambda>v acc. acc OR unat v) blk 0))"

text \<open>
  The value of \<^verbatim>\<open>bitp - d_terse_data.data()\<close> when the loop of \<^verbatim>\<open>f_compress\<close> ends
  (line 548): the absolute bit position one past the last bit written.
\<close>

definition f_compress_cursor :: "terse \<Rightarrow> bool \<Rightarrow> 'a::len word list \<Rightarrow> error + nat" where
  "f_compress_cursor t sg data =
     (if d_block t = 0 then Inl OutOfBounds
      else
        (case f_compress_loop sg (d_block t) (take (d_size t) data)
                (0, 8 * length (d_terse_data t),
                 d_terse_data t
                   @ replicate (buffer_bound (d_size t) (LENGTH('a) div 8) (d_block t)) 0,
                 d_prolix_bits t) of
           Inl e \<Rightarrow> Inl e
         | Inr (prevbits, bitp, buf', prolix_bits) \<Rightarrow> Inr bitp))"

text \<open>
  The bit stream in the words of the specification (section 4.2). A field of \<open>n\<close> bits
  holding \<open>v\<close> is stored least-significant-bit-first. The header of a block of width \<open>w\<close>
  after a block of width \<open>w_prev\<close> is the single bit 1 when \<open>w = w_prev\<close>; otherwise it
  is the bit 0 followed by a 3-bit field holding \<open>w\<close> when \<open>w \<le> 6\<close>, or by three
  one-bits and a 2-bit field holding \<open>w - 7\<close> when \<open>7 \<le> w \<le> 9\<close>, or by five one-bits
  and a 6-bit field holding \<open>w - 10\<close> when \<open>10 \<le> w\<close> (\<open>w \<le> 73\<close> fits the field).
\<close>

definition field_bits :: "nat \<Rightarrow> 'v::semiring_bits \<Rightarrow> bool list" where
  "field_bits n v = map (bit v) [0..<n]"

definition header_bits :: "nat \<Rightarrow> nat \<Rightarrow> bool list" where
  "header_bits w_prev w =
     (if w = w_prev then [True]
      else if w \<le> 6 then False # field_bits 3 w
      else if w \<le> 9 then False # replicate 3 True @ field_bits 2 (w - 7)
      else False # replicate 5 True @ field_bits 6 (w - 10))"

text \<open>
  A block is its header followed by its values as \<open>w\<close>-bit fields, where \<open>w\<close> is the
  width that the encoder computes; a frame is its blocks, the first one after the width 0.
\<close>

definition block_bits :: "bool \<Rightarrow> nat \<Rightarrow> 'a::len word list \<Rightarrow> bool list" where
  "block_bits sg w_prev blk =
     header_bits w_prev (significant_bits sg blk)
       @ concat (map (\<lambda>x. field_bits (significant_bits sg blk) (value_int sg x)) blk)"

fun frame_bits :: "bool \<Rightarrow> nat \<Rightarrow> 'a::len word list list \<Rightarrow> bool list" where
  "frame_bits sg w_prev [] = []"
| "frame_bits sg w_prev (blk # blks) =
     block_bits sg w_prev blk @ frame_bits sg (significant_bits sg blk) blks"

text \<open>
  Block segmentation: groups of exactly \<open>B\<close> values, except possibly the last, which is
  shorter.
\<close>

function split_blocks :: "nat \<Rightarrow> 'x list \<Rightarrow> 'x list list" where
  "split_blocks B data =
     (if data = [] \<or> B = 0 then [] else take B data # split_blocks B (drop B data))"
  by pat_completeness auto
termination
  by (relation "measure (\<lambda>(B, data). length data)") auto

declare split_blocks.simps [simp del]

text \<open>The width of the last block of a run of blocks, and the largest width.\<close>

definition last_width :: "bool \<Rightarrow> nat \<Rightarrow> 'a::len word list list \<Rightarrow> nat" where
  "last_width sg w_prev blks = (if blks = [] then w_prev else significant_bits sg (last blks))"

definition max_width :: "bool \<Rightarrow> nat \<Rightarrow> 'a::len word list list \<Rightarrow> nat" where
  "max_width sg m blks = fold (\<lambda>blk m. max m (significant_bits sg blk)) blks m"

text \<open>The bits \<open>bs\<close> are stored in the buffer from bit position \<open>c\<close> on.\<close>

definition stored :: "byte list \<Rightarrow> nat \<Rightarrow> bool list \<Rightarrow> bool" where
  "stored buf c bs = (c + length bs \<le> 8 * length buf \<and> range_bits buf c (length bs) = bs)"



text \<open>
  A value fits the width \<open>w\<close>: cutting it to \<open>w\<close> bits and extending it again, by sign
  for signed data, gives the value back.
\<close>

definition fits :: "bool \<Rightarrow> nat \<Rightarrow> int \<Rightarrow> bool" where
  "fits sg w v = (if sg then (w = 0 \<and> v = 0) \<or> (0 < w \<and> - (2 ^ (w - 1)) \<le> v \<and> v < 2 ^ (w - 1))
                  else 0 \<le> v \<and> v < 2 ^ w)"



section \<open>Properties\<close>

subsection \<open>Block width and \<^verbatim>\<open>d_prolix_bits\<close>\<close>

text \<open>
  Claim C3 (the width of a signed block is one more than the bits needed for the OR of
  the absolute values, and \<^verbatim>\<open>bits_per_val\<close> is the maximum of the block widths) does not
  hold of the code when a block holds the most negative value next to other values. For
  the signed bytes \<open>[-128, 127]\<close> the specification's width is 9; the code ORs the
  absolute values into a signed byte, which becomes \<open>-1\<close>, takes the absolute value of
  that again and so arrives at width 2.
\<close>

theorem signed_width_of_extremes:
  "spec_width True [- 128, 127 :: 8 word] = 9
   \<and> significant_bits True [- 128, 127 :: 8 word] = 2
   \<and> map_sum id bits_per_val (Terse_data True [- 128, 127 :: 8 word] 2) = Inr 2"
  by code_simp

subsection \<open>Saturation\<close>

text \<open>
  Claim C5 (scenario S5: \<open>[i32::MIN, i32::MAX]\<close> with block size 2 gives
  \<^verbatim>\<open>max_bits = 32\<close> and unpacks into signed 16-bit values as \<open>[i16::MIN, i16::MAX]\<close>)
  does not hold of the code: the block is written with width 2, \<^verbatim>\<open>bits_per_val\<close> is 2,
  and the values come back as \<open>[0, -1]\<close>.
\<close>

theorem scenario_S5_on_code:
  "map_sum id bits_per_val (Terse_data True [- 2147483648, 2147483647 :: 32 word] 2) = Inr 2
   \<and> and_then (Terse_data True [- 2147483648, 2147483647 :: 32 word] 2) (\<lambda>t.
         map_sum id fst (prolix t True 0 :: error + 16 word list \<times> terse))
     = Inr [0, - 1]"
  by code_simp

subsection \<open>Size of the packed buffer after a push\<close>

lemma length_resize: "length (resize n buf) = n"
  by (simp add: resize_def)

lemma f_compress_cursor_defined:
  "f_compress t sg data = Inr t' \<Longrightarrow> \<exists>c. f_compress_cursor t sg data = Inr c"
  by (auto simp: f_compress_cursor_def f_compress_def Let_def
           split: if_splits sum.splits prod.splits)




subsection \<open>Errors and fields that the operations keep\<close>

text \<open>The encoder and the decoder fail only by leaving the buffer.\<close>

lemma read_header_error: "read_header buf bitp sb = Inl e \<Longrightarrow> e = OutOfBounds"
  by (auto simp: read_header_def read_bit_def read_bits_def split: if_splits sum.splits)



lemma get_range_error:
  "(get_range s buf c w k :: error + 'b::len word list \<times> nat) = Inl e \<Longrightarrow> e = OutOfBounds"
  by (induction k arbitrary: c) (auto simp: read_bits_def split: if_splits sum.splits prod.splits)




lemma prolix_loop_error:
  "(prolix_loop s B sz buf from bitp sb out :: error + 'b::len word list \<times> nat) = Inl e
     \<Longrightarrow> e = OutOfBounds"
proof (induction s B sz buf "from" bitp sb out rule: prolix_loop.induct)
  case (1 s B sz buf "from" bitp sb out)
  then show ?case
    by (subst (asm) (3) prolix_loop.simps)
       (auto split: if_splits sum.splits prod.splits dest: read_header_error get_range_error)
qed

lemma find_frame_loop_error: "find_frame_loop B sz buf from bitp sb = Inl e \<Longrightarrow> e = OutOfBounds"
proof (induction B sz buf "from" bitp sb rule: find_frame_loop.induct)
  case (1 B sz buf "from" bitp sb)
  then show ?case
    by (subst (asm) (2) find_frame_loop.simps)
       (auto split: if_splits sum.splits prod.splits dest: read_header_error)
qed

lemma f_find_terse_frame_error: "f_find_terse_frame t frame = Inl e \<Longrightarrow> e = OutOfBounds"
  by (induction frame arbitrary: e)
     (auto simp: Let_def split: if_splits sum.splits prod.splits dest: find_frame_loop_error)

lemma f_find_terse_frame_fields:
  "f_find_terse_frame t frame = Inr (off, t1) \<Longrightarrow>
     d_signed t1 = d_signed t \<and> d_block t1 = d_block t \<and> d_size t1 = d_size t
     \<and> d_prolix_bits t1 = d_prolix_bits t \<and> d_terse_data t1 = d_terse_data t
     \<and> length (d_terse_frames t1) = length (d_terse_frames t)"
proof (induction frame arbitrary: off t1)
  case 0
  then show ?case by (auto split: if_splits)
next
  case (Suc k)
  from Suc.prems show ?case
    by (auto simp: Let_def split: if_splits sum.splits prod.splits dest!: Suc.IH)
qed


subsection \<open>Signedness check of \<^verbatim>\<open>prolix\<close>\<close>

text \<open>
  Claim C6, as amended: for a store holding signed data, a call of \<^verbatim>\<open>prolix\<close> with an
  unsigned integral output type and a frame index below the number of frames, whose frame
  offset resolves inside the buffer, fails with \<open>SignednessMismatch\<close>; no call with an
  unsigned output type on such a store produces output values; and \<^verbatim>\<open>prolix\<close> never
  fails with \<open>SignednessMismatch\<close> when the stored data are unsigned or the output type is
  signed.
\<close>

theorem prolix_signedness:
  "(d_signed t \<and> frame < number_of_frames t \<and> f_find_terse_frame t frame = Inr r
      \<longrightarrow> (prolix t False frame :: error + 'b::len word list \<times> terse) = Inl SignednessMismatch)
   \<and> (d_signed t \<longrightarrow> (\<forall>res. (prolix t False frame :: error + 'b word list \<times> terse) \<noteq> Inr res))
   \<and> (\<not> d_signed t \<or> out_signed
      \<longrightarrow> (prolix t out_signed frame :: error + 'b word list \<times> terse) \<noteq> Inl SignednessMismatch)"
proof (intro conjI impI allI)
  assume a: "d_signed t \<and> frame < number_of_frames t \<and> f_find_terse_frame t frame = Inr r"
  obtain off t1 where r: "r = (off, t1)" by (cases r)
  with a have "d_signed t1" by (auto dest: f_find_terse_frame_fields)
  with a r show "(prolix t False frame :: error + 'b word list \<times> terse) = Inl SignednessMismatch"
    by (simp add: prolix_def)
next
  fix res :: "'b word list \<times> terse"
  assume "d_signed t"
  then show "prolix t False frame \<noteq> Inr res"
    by (auto simp: prolix_def split: sum.splits prod.splits dest: f_find_terse_frame_fields)
next
  assume a: "\<not> d_signed t \<or> out_signed"
  show "(prolix t out_signed frame :: error + 'b word list \<times> terse) \<noteq> Inl SignednessMismatch"
  proof
    assume p: "(prolix t out_signed frame :: error + 'b word list \<times> terse) = Inl SignednessMismatch"
    from p a show False
      by (auto simp: prolix_def split: if_splits sum.splits prod.splits
               dest: f_find_terse_frame_fields f_find_terse_frame_error prolix_loop_error)
  qed
qed


theorem prolix_signedness_witness:
  "d_signed \<lparr>d_signed = True, d_block = 3, d_size = 3, d_prolix_bits = 4, d_dim = [],
             d_terse_data = [216, 36, 0], d_terse_frames = [0]\<rparr>
   \<and> 0 < number_of_frames
           \<lparr>d_signed = True, d_block = 3, d_size = 3, d_prolix_bits = 4, d_dim = [],
            d_terse_data = [216, 36, 0], d_terse_frames = [0]\<rparr>
   \<and> (prolix \<lparr>d_signed = True, d_block = 3, d_size = 3, d_prolix_bits = 4, d_dim = [],
               d_terse_data = [216, 36, 0], d_terse_frames = [0]\<rparr> False 0
          :: error + 32 word list \<times> terse) = Inl SignednessMismatch
   \<and> (prolix \<lparr>d_signed = True, d_block = 3, d_size = 3, d_prolix_bits = 4, d_dim = [],
               d_terse_data = [216, 36, 0], d_terse_frames = [0]\<rparr> True 0
          :: error + 32 word list \<times> terse) \<noteq> Inl SignednessMismatch"
proof -
  let ?t = "\<lparr>d_signed = True, d_block = 3, d_size = 3, d_prolix_bits = 4, d_dim = [],
             d_terse_data = [216, 36, 0], d_terse_frames = [0]\<rparr>"
  have h: "d_signed ?t \<and> 0 < number_of_frames ?t \<and> f_find_terse_frame ?t 0 = Inr (0, ?t)"
    by (simp add: number_of_frames_def)
  from prolix_signedness [where ?'b = 32, of ?t 0 "(0, ?t)" True] h
  show ?thesis by simp
qed

text \<open>
  The claim as stated (every call with an unsigned output fails with
  \<open>SignednessMismatch\<close>) does not hold: \<^verbatim>\<open>prolix\<close> asserts the frame index first, so a
  call with a frame index that is out of range fails with that assertion instead.
\<close>

theorem prolix_frame_check_comes_first:
  "d_signed \<lparr>d_signed = True, d_block = 3, d_size = 3, d_prolix_bits = 4, d_dim = [],
             d_terse_data = [216, 36, 0], d_terse_frames = [0]\<rparr>
   \<and> (prolix \<lparr>d_signed = True, d_block = 3, d_size = 3, d_prolix_bits = 4, d_dim = [],
               d_terse_data = [216, 36, 0], d_terse_frames = [0]\<rparr> False 1
          :: error + 32 word list \<times> terse) = Inl FrameIndexOutOfRange"
  by (simp add: prolix_def number_of_frames_def)

subsection \<open>Width overflow\<close>








subsection \<open>Empty frames\<close>

lemma buffer_bound_0: "B \<noteq> 0 \<Longrightarrow> buffer_bound 0 s B = 0"
  by (simp add: buffer_bound_def)

lemma f_compress_empty:
  "d_block t \<noteq> 0 \<Longrightarrow> d_size t = 0 \<Longrightarrow>
     f_compress t sg data = Inr (t\<lparr>d_terse_data := d_terse_data t @ [0]\<rparr>)
     \<and> f_compress_cursor t sg data = Inr (8 * length (d_terse_data t))"
  by (simp add: f_compress_def f_compress_cursor_def buffer_bound_0 f_compress_loop.simps resize_def)

lemma f_find_terse_frame_empty:
  "d_size t = 0 \<Longrightarrow> frame < length (d_terse_frames t) \<Longrightarrow>
     \<exists>off t1. f_find_terse_frame t frame = Inr (off, t1)"
proof (induction frame)
  case 0
  then show ?case by simp
next
  case (Suc k)
  then obtain off t0 where k: "f_find_terse_frame t k = Inr (off, t0)"
    by auto
  then have "d_size t0 = 0"
    using Suc.prems(1) by (auto dest: f_find_terse_frame_fields)
  with k Suc.prems show ?case
    by (simp add: find_frame_loop.simps Let_def)
qed

lemma prolix_empty:
  assumes "d_size t = 0" and "frame < number_of_frames t" and "d_signed t \<longrightarrow> out_signed"
  shows "\<exists>t'. (prolix t out_signed frame :: error + 'b::len word list \<times> terse) = Inr ([], t')"
proof -
  from assms obtain off t1 where f: "f_find_terse_frame t frame = Inr (off, t1)"
    using f_find_terse_frame_empty [of t frame] by (auto simp: number_of_frames_def)
  then have "d_size t1 = 0" "d_signed t1 = d_signed t"
    using assms(1) by (auto dest: f_find_terse_frame_fields)
  with f assms show ?thesis
    by (auto simp: prolix_def prolix_loop.simps)
qed

text \<open>
  Claim C10, as amended: for a store with a non-zero block size that either has no frame
  yet, or has frame length 0 and the signedness of the pushed frame, pushing an empty
  frame succeeds, appends one entry to \<^verbatim>\<open>d_terse_frames\<close> and one zero byte to the packed
  buffer, writes no bit (the bit cursor stays at the old end of the buffer), and unpacking
  any frame of the result into an output type that is signed if the data are signed
  succeeds and writes nothing.
\<close>

theorem push_back_empty_frame:
  assumes "d_block t \<noteq> 0"
    and "number_of_frames t = 0 \<or> (d_size t = 0 \<and> d_signed t = sg)"
  shows "\<exists>t'. push_back t sg ([] :: 'a::len word list) = Inr t'
           \<and> d_terse_frames t' = d_terse_frames t @ [0]
           \<and> d_terse_data t' = d_terse_data t @ [0]
           \<and> f_compress_cursor (t\<lparr>d_size := 0\<rparr>) sg ([] :: 'a word list) = Inr (8 * terse_size t)
           \<and> (\<forall>frame out_signed.
                 frame < number_of_frames t' \<and> (sg \<longrightarrow> out_signed)
                 \<longrightarrow> (\<exists>t''. (prolix t' out_signed frame :: error + 'b::len word list \<times> terse)
                              = Inr ([], t'')))"
proof -
  obtain t0 where t0: "push_back t sg ([] :: 'a word list) = f_compress t0 sg ([] :: 'a word list)"
      "d_block t0 = d_block t" "d_size t0 = 0" "d_signed t0 = sg"
      "d_terse_frames t0 = d_terse_frames t @ [0]" "d_terse_data t0 = d_terse_data t"
  proof (cases "number_of_frames t = 0")
    case True
    show ?thesis
      by (rule that [of "t\<lparr>d_size := 0, d_signed := sg,
                           d_terse_frames := d_terse_frames t @ [0]\<rparr>"])
         (simp_all add: push_back_def True)
  next
    case False
    with assms(2) show ?thesis
      by (intro that [of "t\<lparr>d_terse_frames := d_terse_frames t @ [0]\<rparr>"])
         (simp_all add: push_back_def)
  qed
  let ?t' = "t0\<lparr>d_terse_data := d_terse_data t0 @ [0]\<rparr>"
  have p: "push_back t sg ([] :: 'a word list) = Inr ?t'"
    using assms(1) t0 f_compress_empty [of t0 sg "[] :: 'a word list"] by simp
  have c: "f_compress_cursor (t\<lparr>d_size := 0\<rparr>) sg ([] :: 'a word list) = Inr (8 * terse_size t)"
    using assms(1) f_compress_empty [of "t\<lparr>d_size := 0\<rparr>" sg "[] :: 'a word list"]
    by (simp add: terse_size_def)
  have u: "\<exists>t''. (prolix ?t' out_signed frame :: error + 'b word list \<times> terse) = Inr ([], t'')"
    if "frame < number_of_frames ?t'" and "sg \<longrightarrow> out_signed" for frame out_signed
    using that t0 by (intro prolix_empty) simp_all
  from p c u t0 show ?thesis by auto
qed

theorem push_back_empty_frame_witness:
  "d_block (Terse_empty False 7) \<noteq> 0
   \<and> number_of_frames (Terse_empty False 7) = 0
   \<and> (\<exists>t'. push_back (Terse_empty False 7) True ([] :: 16 word list) = Inr t'
          \<and> d_terse_frames t' = [0]
          \<and> d_terse_data t' = [0]
          \<and> (\<exists>t''. (prolix t' True 0 :: error + 16 word list \<times> terse) = Inr ([], t'')))"
proof -
  have h: "d_block (Terse_empty False 7) \<noteq> 0" "number_of_frames (Terse_empty False 7) = 0"
    by (simp_all add: Terse_empty_def number_of_frames_def)
  from push_back_empty_frame [where ?'a = 16 and ?'b = 16, of "Terse_empty False 7" True] h
  obtain t' where t': "push_back (Terse_empty False 7) True ([] :: 16 word list) = Inr t'"
      "d_terse_frames t' = d_terse_frames (Terse_empty False 7) @ [0]"
      "d_terse_data t' = d_terse_data (Terse_empty False 7) @ [0]"
      "\<forall>frame out_signed. frame < number_of_frames t' \<and> (True \<longrightarrow> out_signed)
          \<longrightarrow> (\<exists>t''. (prolix t' out_signed frame :: error + 16 word list \<times> terse) = Inr ([], t''))"
    by blast
  from t'(2) have "0 < number_of_frames t'"
    by (simp add: number_of_frames_def)
  with t'(4) have "\<exists>t''. (prolix t' True 0 :: error + 16 word list \<times> terse) = Inr ([], t'')"
    by blast
  with t' h show ?thesis
    by (auto simp: Terse_empty_def)
qed

text \<open>
  The claim as stated (every push of an empty frame succeeds) does not hold: pushing an
  empty signed frame onto a store of empty unsigned frames fails the signedness assertion
  of \<^verbatim>\<open>push_back\<close>.
\<close>

theorem push_back_empty_frame_other_signedness:
  "d_size \<lparr>d_signed = False, d_block = 12, d_size = 0, d_prolix_bits = 0, d_dim = [],
           d_terse_data = [0], d_terse_frames = [0]\<rparr> = 0
   \<and> push_back \<lparr>d_signed = False, d_block = 12, d_size = 0, d_prolix_bits = 0, d_dim = [],
                d_terse_data = [0], d_terse_frames = [0]\<rparr> True ([] :: 16 word list)
     = Inl SignednessMismatch"
  by (simp add: push_back_def number_of_frames_def)


section \<open>The bit stream of a frame\<close>

subsection \<open>Writing bits\<close>

lemma length_or_bit: "length (or_bit buf c b) = length buf"
  by (simp add: or_bit_def)

lemma length_or_bits: "length (or_bits buf c bs) = length buf"
  by (induction bs arbitrary: buf c) (simp_all add: length_or_bit)

lemma bit_push_bit_1_byte: "k < 8 \<Longrightarrow> j < 8 \<Longrightarrow> bit (2 ^ k :: byte) j = (j = k)"
  by (auto simp: bit_simps)

lemma div_mod_eq_iff: "(i :: nat) = c \<longleftrightarrow> i div 8 = c div 8 \<and> i mod 8 = c mod 8"
  by (metis mult_div_mod_eq)

lemma get_bit_or_bit:
  assumes "c < 8 * length buf"
  shows "get_bit (or_bit buf c b) i = (get_bit buf i \<or> (b \<and> i = c))"
proof (cases b)
  case False
  then show ?thesis by (simp add: or_bit_def)
next
  case True
  show ?thesis
  proof (cases "i div 8 = c div 8")
    case same: True
    from assms have "c div 8 < length buf" by simp
    with True same show ?thesis
      by (simp add: get_bit_def or_bit_def bit_or_iff bit_push_bit_1_byte div_mod_eq_iff [of i c])
  next
    case False
    with True show ?thesis
      by (auto simp: get_bit_def or_bit_def)
  qed
qed

lemma get_bit_or_bits:
  "c + length bs \<le> 8 * length buf \<Longrightarrow>
     get_bit (or_bits buf c bs) i
       = (get_bit buf i \<or> (c \<le> i \<and> i < c + length bs \<and> bs ! (i - c)))"
proof (induction bs arbitrary: buf c)
  case Nil
  then show ?case by auto
next
  case (Cons b bs)
  have "get_bit (or_bits (or_bit buf c b) (Suc c) bs) i
          = (get_bit (or_bit buf c b) i
               \<or> (Suc c \<le> i \<and> i < Suc c + length bs \<and> bs ! (i - Suc c)))"
    using Cons.prems by (intro Cons.IH) (simp add: length_or_bit)
  also have "get_bit (or_bit buf c b) i = (get_bit buf i \<or> (b \<and> i = c))"
    using Cons.prems by (intro get_bit_or_bit) simp
  finally show ?case
    by (cases "i = c") (auto simp: nth_Cons')
qed

lemma or_bits_append:
  "or_bits buf c (xs @ ys) = or_bits (or_bits buf c xs) (c + length xs) ys"
  by (induction xs arbitrary: buf c) simp_all

lemma byte_list_eqI:
  assumes "length xs = length ys" and "\<And>i. i < 8 * length xs \<Longrightarrow> get_bit xs i = get_bit ys i"
  shows "xs = (ys :: byte list)"
proof (rule nth_equalityI)
  show "length xs = length ys" by fact
next
  fix k
  assume k: "k < length xs"
  show "xs ! k = ys ! k"
  proof (rule bit_word_eqI)
    fix j
    assume "j < LENGTH(8)"
    then have j: "j < 8" by simp
    with k have "8 * k + j < 8 * length xs" by simp
    then have "get_bit xs (8 * k + j) = get_bit ys (8 * k + j)" by (rule assms(2))
    with j show "bit (xs ! k) j = bit (ys ! k) j"
      by (simp add: get_bit_def)
  qed
qed


subsection \<open>Reading bits\<close>

lemma length_range_bits: "length (range_bits buf c n) = n"
  by (simp add: range_bits_def)

lemma nth_range_bits: "i < n \<Longrightarrow> range_bits buf c n ! i = get_bit buf (c + i)"
  by (simp add: range_bits_def)

lemma storedI:
  "c + length bs \<le> 8 * length buf \<Longrightarrow> (\<And>i. i < length bs \<Longrightarrow> get_bit buf (c + i) = bs ! i)
     \<Longrightarrow> stored buf c bs"
  by (auto simp: stored_def intro!: nth_equalityI simp: length_range_bits nth_range_bits)

lemma stored_nth: "stored buf c bs \<Longrightarrow> i < length bs \<Longrightarrow> get_bit buf (c + i) = bs ! i"
  by (metis nth_range_bits stored_def)

lemma stored_bound: "stored buf c bs \<Longrightarrow> c + length bs \<le> 8 * length buf"
  by (simp add: stored_def)

lemma stored_Nil: "stored buf c [] = (c \<le> 8 * length buf)"
  by (simp add: stored_def range_bits_def)



lemma length_field_bits: "length (field_bits n v) = n"
  by (simp add: field_bits_def)




subsection \<open>Headers\<close>

lemma field_bits_int: "field_bits n (int v) = field_bits n v"
  by (simp add: field_bits_def bit_of_nat_iff_bit)

lemma field_bits_mask_push:
  "field_bits (m + n) (mask m + push_bit m (int k)) = replicate m True @ field_bits n k"
proof (rule nth_equalityI)
  show "length (field_bits (m + n) (mask m + push_bit m (int k)))
          = length (replicate m True @ field_bits n k)"
    by (simp add: length_field_bits)
next
  fix i
  assume "i < length (field_bits (m + n) (mask m + push_bit m (int k)))"
  then have i: "i < m + n" by (simp add: length_field_bits)
  have disj: "\<not> bit (mask m :: int) j \<or> \<not> bit (push_bit m (int k)) j" for j
    by (auto simp: bit_mask_iff bit_push_bit_iff)
  have "bit (mask m + push_bit m (int k)) i = (bit (mask m :: int) i \<or> bit (push_bit m (int k)) i)"
    by (rule bit_disjunctive_add_iff) (rule disj)
  also have "\<dots> = (i < m \<or> (m \<le> i \<and> bit k (i - m)))"
    by (simp add: bit_mask_iff bit_push_bit_iff bit_of_nat_iff_bit)
  finally show "field_bits (m + n) (mask m + push_bit m (int k)) ! i
                  = (replicate m True @ field_bits n k) ! i"
    using i by (auto simp: field_bits_def nth_append)
qed

lemma header_field_5: "field_bits 5 (7 + push_bit 3 (int k)) = replicate 3 True @ field_bits 2 k"
  using field_bits_mask_push [of 3 2 k] by (simp add: mask_eq_exp_minus_1)

lemma header_field_11: "field_bits 11 (31 + push_bit 5 (int k)) = replicate 5 True @ field_bits 6 k"
  using field_bits_mask_push [of 5 6 k] by (simp add: mask_eq_exp_minus_1)

lemma header_field_5':
  "7 \<le> w \<Longrightarrow> field_bits 5 (7 + push_bit 3 (int w - 7)) = replicate 3 True @ field_bits 2 (w - 7)"
  using header_field_5 [of "w - 7"] by (simp add: of_nat_diff)

lemma header_field_11':
  "10 \<le> w \<Longrightarrow> field_bits 11 (31 + push_bit 5 (int w - 10)) = replicate 5 True @ field_bits 6 (w - 10)"
  using header_field_11 [of "w - 10"] by (simp add: of_nat_diff)


lemma or_bit_False: "or_bit buf c False = buf"
  by (simp add: or_bit_def)

lemma or_range_field: "or_range buf c v n = or_bits buf c (field_bits n v)"
  by (simp add: or_range_def field_bits_def)

lemma write_header_eq:
  "write_header buf c w_prev w
     = (if c + length (header_bits w_prev w) \<le> 8 * length buf
        then Inr (or_bits buf c (header_bits w_prev w), c + length (header_bits w_prev w), w)
        else Inl OutOfBounds)"
proof -
  consider "w = w_prev" | "w \<noteq> w_prev" "w \<le> 6" | "w \<noteq> w_prev" "6 < w" "w \<le> 9"
    | "w \<noteq> w_prev" "9 < w"
    by linarith
  then show ?thesis
  proof cases
    case 1
    then show ?thesis
      by (auto simp: write_header_def header_bits_def write_bit_def)
  next
    case 2
    then show ?thesis
      by (simp add: write_header_def header_bits_def write_bits_def or_range_field
                    or_bit_False length_field_bits field_bits_int)
  next
    case 3
    then show ?thesis
      by (simp add: write_header_def header_bits_def write_bits_def or_range_field
                    or_bit_False length_field_bits header_field_5')
  next
    case 4
    then show ?thesis
      by (simp add: write_header_def header_bits_def write_bits_def or_range_field
                    or_bit_False length_field_bits header_field_11')
  qed
qed




subsection \<open>Values\<close>

lemma length_concat_fields:
  "length (concat (map (\<lambda>x. field_bits w (f x)) xs)) = w * length xs"
  by (induction xs) (simp_all add: length_field_bits)

lemma append_range_eq:
  "c \<le> 8 * length buf \<Longrightarrow>
   append_range buf c w vs
     = (if c + w * length vs \<le> 8 * length buf
        then Inr (or_bits buf c (concat (map (field_bits w) vs)), c + w * length vs)
        else Inl OutOfBounds)"
proof (induction vs arbitrary: buf c)
  case Nil
  then show ?case by simp
next
  case (Cons v vs)
  show ?case
  proof (cases "c + w \<le> 8 * length buf")
    case True
    then have "append_range (or_bits buf c (field_bits w v)) (c + w) w vs
                 = (if c + w + w * length vs \<le> 8 * length (or_bits buf c (field_bits w v))
                    then Inr (or_bits (or_bits buf c (field_bits w v)) (c + w)
                                (concat (map (field_bits w) vs)), c + w + w * length vs)
                    else Inl OutOfBounds)"
      by (intro Cons.IH) (simp add: length_or_bits)
    with True show ?thesis
      by (simp add: write_bits_def or_range_field or_bits_append length_field_bits
                    length_or_bits add.assoc)
  next
    case False
    then have "\<not> c + w * length (v # vs) \<le> 8 * length buf"
      by simp
    with False show ?thesis
      by (simp add: write_bits_def)
  qed
qed


subsection \<open>One block\<close>

lemma length_block_bits:
  "length (block_bits sg w_prev blk)
     = length (header_bits w_prev (significant_bits sg blk))
       + significant_bits sg blk * length blk"
  by (simp add: block_bits_def length_concat_fields)

lemma concat_fields_0: "concat (map (\<lambda>x. field_bits 0 (f x)) xs) = []"
  by (induction xs) (simp_all add: field_bits_def)

lemma f_compress_block_eq:
  "f_compress_block sg B data (w_prev, c, buf, pb)
     = (if c + length (block_bits sg w_prev (take B data)) \<le> 8 * length buf
        then Inr (significant_bits sg (take B data),
                  c + length (block_bits sg w_prev (take B data)),
                  or_bits buf c (block_bits sg w_prev (take B data)),
                  max pb (significant_bits sg (take B data)))
        else Inl OutOfBounds)"
proof -
  let ?blk = "take B data"
  let ?w = "significant_bits sg ?blk"
  let ?hb = "header_bits w_prev ?w"
  show ?thesis
  proof (cases "c + length ?hb \<le> 8 * length buf")
    case False
    then show ?thesis
      by (simp add: f_compress_block_def write_header_eq length_block_bits Let_def)
  next
    case hdr: True
    show ?thesis
    proof (cases "?w = 0")
      case True
      with hdr show ?thesis
        by (simp add: f_compress_block_def write_header_eq Let_def block_bits_def
                      concat_fields_0)
    next
      case False
      have "append_range (or_bits buf c ?hb) (c + length ?hb) ?w (map (value_int sg) ?blk)
              = (if c + length ?hb + ?w * length (map (value_int sg) ?blk)
                      \<le> 8 * length (or_bits buf c ?hb)
                 then Inr (or_bits (or_bits buf c ?hb) (c + length ?hb)
                             (concat (map (field_bits ?w) (map (value_int sg) ?blk))),
                           c + length ?hb + ?w * length (map (value_int sg) ?blk))
                 else Inl OutOfBounds)"
        using hdr by (intro append_range_eq) (simp add: length_or_bits)
      with hdr False show ?thesis
        by (simp add: f_compress_block_def write_header_eq Let_def block_bits_def
                      length_concat_fields or_bits_append length_or_bits comp_def add.assoc)
    qed
  qed
qed


subsection \<open>The encoder loop\<close>

lemma split_blocks_Nil: "split_blocks B [] = []"
  by (simp add: split_blocks.simps)

lemma split_blocks_step:
  "data \<noteq> [] \<Longrightarrow> B \<noteq> 0 \<Longrightarrow> split_blocks B data = take B data # split_blocks B (drop B data)"
  by (subst split_blocks.simps) simp

lemma last_width_Cons:
  "last_width sg w_prev (blk # blks) = last_width sg (significant_bits sg blk) blks"
  by (simp add: last_width_def)

lemma max_width_Cons:
  "max_width sg m (blk # blks) = max_width sg (max m (significant_bits sg blk)) blks"
  by (simp add: max_width_def)

lemma f_compress_loop_eq:
  "B \<noteq> 0 \<Longrightarrow> c \<le> 8 * length buf \<Longrightarrow>
   f_compress_loop sg B data (w_prev, c, buf, pb)
     = (if c + length (frame_bits sg w_prev (split_blocks B data)) \<le> 8 * length buf
        then Inr (last_width sg w_prev (split_blocks B data),
                  c + length (frame_bits sg w_prev (split_blocks B data)),
                  or_bits buf c (frame_bits sg w_prev (split_blocks B data)),
                  max_width sg pb (split_blocks B data))
        else Inl OutOfBounds)"
proof (induction B data arbitrary: w_prev c buf pb rule: split_blocks.induct)
  case (1 B data)
  show ?case
  proof (cases "data = []")
    case True
    with "1.prems" show ?thesis
      by (simp add: f_compress_loop.simps split_blocks_Nil last_width_def max_width_def)
  next
    case False
    let ?blk = "take B data"
    let ?w = "significant_bits sg ?blk"
    let ?bb = "block_bits sg w_prev ?blk"
    let ?rest = "split_blocks B (drop B data)"
    have sb: "split_blocks B data = ?blk # ?rest"
      using False "1.prems"(1) by (rule split_blocks_step)
    show ?thesis
    proof (cases "c + length ?bb \<le> 8 * length buf")
      case fits: True
      have "f_compress_loop sg B (drop B data)
              (?w, c + length ?bb, or_bits buf c ?bb, max pb ?w)
            = (if c + length ?bb + length (frame_bits sg ?w ?rest)
                    \<le> 8 * length (or_bits buf c ?bb)
               then Inr (last_width sg ?w ?rest,
                         c + length ?bb + length (frame_bits sg ?w ?rest),
                         or_bits (or_bits buf c ?bb) (c + length ?bb) (frame_bits sg ?w ?rest),
                         max_width sg (max pb ?w) ?rest)
               else Inl OutOfBounds)"
        using False "1.prems"(1) fits by (intro "1.IH") (simp_all add: length_or_bits)
      with False fits show ?thesis
        by (subst f_compress_loop.simps)
           (simp add: f_compress_block_eq sb last_width_Cons max_width_Cons or_bits_append
                      length_or_bits add.assoc)
    next
      case False
      with \<open>data \<noteq> []\<close> show ?thesis
        by (subst f_compress_loop.simps) (simp add: f_compress_block_eq sb)
    qed
  qed
qed

subsection \<open>The decoder loop\<close>





subsection \<open>Bits that stay where they are\<close>

lemma div8_less: "(i :: nat) < 8 * n \<longleftrightarrow> i div 8 < n"
  by auto

lemma get_bit_append:
  "i < 8 * length buf \<Longrightarrow> get_bit (buf @ tl_bytes) i = get_bit buf i"
  by (simp add: get_bit_def nth_append div8_less)

lemma get_bit_append_zeros:
  "8 * length buf \<le> i \<Longrightarrow> i < 8 * (length buf + m) \<Longrightarrow> \<not> get_bit (buf @ replicate m 0) i"
proof -
  assume a: "8 * length buf \<le> i" "i < 8 * (length buf + m)"
  then have "\<not> i div 8 < length buf" "i div 8 - length buf < m"
    by auto
  then show ?thesis
    by (simp add: get_bit_def nth_append)
qed

lemma get_bit_resize:
  "i < 8 * n \<Longrightarrow> i < 8 * length buf \<Longrightarrow> get_bit (resize n buf) i = get_bit buf i"
  by (simp add: get_bit_def resize_def nth_append div8_less)

lemma stored_or_bits:
  assumes "c + length bs \<le> 8 * length buf" and "\<And>i. i < length bs \<Longrightarrow> \<not> get_bit buf (c + i)"
  shows "stored (or_bits buf c bs) c bs"
  using assms by (intro storedI) (simp_all add: length_or_bits get_bit_or_bits)

lemma stored_or_bits_later:
  assumes "stored buf p xs" and "p + length xs \<le> c" and "c + length bs \<le> 8 * length buf"
  shows "stored (or_bits buf c bs) p xs"
proof (rule storedI)
  show "p + length xs \<le> 8 * length (or_bits buf c bs)"
    using assms by (simp add: length_or_bits)
next
  fix i assume "i < length xs"
  with assms show "get_bit (or_bits buf c bs) (p + i) = xs ! i"
    by (simp add: get_bit_or_bits stored_nth)
qed

lemma stored_append_bytes:
  assumes "stored buf p xs"
  shows "stored (buf @ tl_bytes) p xs"
proof (rule storedI)
  show "p + length xs \<le> 8 * length (buf @ tl_bytes)"
    using stored_bound [OF assms] by simp
next
  fix i assume i: "i < length xs"
  with stored_bound [OF assms] have "p + i < 8 * length buf" by simp
  with i assms show "get_bit (buf @ tl_bytes) (p + i) = xs ! i"
    by (simp add: get_bit_append stored_nth)
qed

lemma stored_resize:
  assumes "stored buf p xs" and "p + length xs \<le> 8 * n"
  shows "stored (resize n buf) p xs"
proof (rule storedI)
  show "p + length xs \<le> 8 * length (resize n buf)"
    using assms(2) by (simp add: length_resize)
next
  fix i assume i: "i < length xs"
  with stored_bound [OF assms(1)] assms(2) have "p + i < 8 * length buf" "p + i < 8 * n"
    by simp_all
  with i assms(1) show "get_bit (resize n buf) (p + i) = xs ! i"
    by (simp add: get_bit_resize stored_nth)
qed

subsection \<open>One push\<close>

lemma f_compress_eq:
  fixes data :: "'a::len word list"
  assumes "d_block t \<noteq> 0"
  shows "f_compress t sg data
     = (if length (frame_bits sg 0 (split_blocks (d_block t) (take (d_size t) data)))
             \<le> 8 * buffer_bound (d_size t) (LENGTH('a) div 8) (d_block t)
        then Inr (t\<lparr>d_prolix_bits :=
                       max_width sg (d_prolix_bits t)
                         (split_blocks (d_block t) (take (d_size t) data)),
                     d_terse_data :=
                       resize (1 + (8 * length (d_terse_data t)
                                    + length (frame_bits sg 0
                                        (split_blocks (d_block t) (take (d_size t) data))))
                                   div 8)
                         (or_bits
                            (d_terse_data t
                               @ replicate (buffer_bound (d_size t) (LENGTH('a) div 8)
                                              (d_block t)) 0)
                            (8 * length (d_terse_data t))
                            (frame_bits sg 0
                               (split_blocks (d_block t) (take (d_size t) data))))\<rparr>)
        else Inl OutOfBounds)"
  using assms by (simp add: f_compress_def Let_def f_compress_loop_eq)

lemma f_compress_stored:
  fixes data :: "'a::len word list"
  assumes "f_compress t sg data = Inr t'"
  shows "stored (d_terse_data t') (8 * length (d_terse_data t))
           (frame_bits sg 0 (split_blocks (d_block t) (take (d_size t) data)))"
    and "length (d_terse_data t')
           = 1 + length (d_terse_data t)
             + length (frame_bits sg 0 (split_blocks (d_block t) (take (d_size t) data))) div 8"
    and "stored (d_terse_data t) p xs \<Longrightarrow> stored (d_terse_data t') p xs"
    and "d_prolix_bits t'
           = max_width sg (d_prolix_bits t) (split_blocks (d_block t) (take (d_size t) data))"
    and "d_terse_frames t' = d_terse_frames t" and "d_block t' = d_block t"
    and "d_size t' = d_size t" and "d_signed t' = d_signed t"
proof -
  let ?fb = "frame_bits sg 0 (split_blocks (d_block t) (take (d_size t) data))"
  let ?m = "buffer_bound (d_size t) (LENGTH('a) div 8) (d_block t)"
  let ?buf = "d_terse_data t @ replicate ?m 0"
  let ?c = "8 * length (d_terse_data t)"
  let ?n = "1 + (?c + length ?fb) div 8"
  from assms have B: "d_block t \<noteq> 0"
    by (auto simp: f_compress_def split: if_splits)
  from assms have fits: "length ?fb \<le> 8 * ?m"
    and t': "t' = t\<lparr>d_prolix_bits :=
                       max_width sg (d_prolix_bits t)
                         (split_blocks (d_block t) (take (d_size t) data)),
                     d_terse_data := resize ?n (or_bits ?buf ?c ?fb)\<rparr>"
    unfolding f_compress_eq [OF B] by (simp_all split: if_splits)
  have "stored (or_bits ?buf ?c ?fb) ?c ?fb"
    using fits by (intro stored_or_bits) (simp_all add: get_bit_append_zeros)
  then show "stored (d_terse_data t') ?c ?fb"
    unfolding t' by (simp add: stored_resize)
  show "length (d_terse_data t') = 1 + length (d_terse_data t) + length ?fb div 8"
    unfolding t' by (simp add: length_resize)
  show "stored (d_terse_data t') p xs" if s: "stored (d_terse_data t) p xs"
  proof -
    from s have "stored ?buf p xs" by (rule stored_append_bytes)
    then have "stored (or_bits ?buf ?c ?fb) p xs"
      using fits stored_bound [OF s] by (intro stored_or_bits_later) simp_all
    then show ?thesis
      unfolding t' using stored_bound [OF s] by (simp add: stored_resize)
  qed
  show "d_prolix_bits t'
          = max_width sg (d_prolix_bits t) (split_blocks (d_block t) (take (d_size t) data))"
    and "d_terse_frames t' = d_terse_frames t" and "d_block t' = d_block t"
    and "d_size t' = d_size t" and "d_signed t' = d_signed t"
    unfolding t' by simp_all
qed



subsection \<open>Header grammar\<close>





subsection \<open>Frame offsets\<close>











subsection \<open>Frames of zeros\<close>

lemma block_setbits_zeros: "set blk \<subseteq> {0} \<Longrightarrow> block_setbits sg blk = 0"
proof -
  have "set blk \<subseteq> {0} \<Longrightarrow> fold (\<lambda>p setbits. setbits OR (if sg then wabs p else p)) blk s = s"
    for s :: "'a word"
    by (induction blk arbitrary: s) (auto simp: wabs_def)
  then show "set blk \<subseteq> {0} \<Longrightarrow> block_setbits sg blk = 0"
    by (simp add: block_setbits_def)
qed

lemma significant_bits_zeros: "set blk \<subseteq> {0} \<Longrightarrow> significant_bits sg blk = 0"
  by (simp add: significant_bits_def block_setbits_zeros f_highest_set_bit_def
                f_highest_set_bit_s_def f_highest_set_bit_u.simps)

lemma set_split_blocks: "blk \<in> set (split_blocks B data) \<Longrightarrow> set blk \<subseteq> set data"
proof (induction B data rule: split_blocks.induct)
  case (1 B data)
  show ?case
  proof (cases "data = [] \<or> B = 0")
    case True
    with "1.prems" show ?thesis
      by (simp add: split_blocks.simps)
  next
    case False
    with "1.prems" have "blk = take B data \<or> blk \<in> set (split_blocks B (drop B data))"
      by (subst (asm) split_blocks.simps) auto
    then show ?thesis
    proof
      assume "blk = take B data"
      then show ?thesis by (auto dest: in_set_takeD)
    next
      assume "blk \<in> set (split_blocks B (drop B data))"
      with False have "set blk \<subseteq> set (drop B data)" by (intro "1.IH") simp_all
      then show ?thesis by (auto dest: in_set_dropD)
    qed
  qed
qed

lemma length_split_blocks:
  "B \<noteq> 0 \<Longrightarrow> length (split_blocks B data) = (length data + B - 1) div B"
proof (induction B data rule: split_blocks.induct)
  case (1 B data)
  show ?case
  proof (cases "data = []")
    case True
    with "1.prems" show ?thesis
      by (simp add: split_blocks_Nil)
  next
    case False
    with "1.prems" have ih: "length (split_blocks B (drop B data))
                               = (length (drop B data) + B - 1) div B"
      by (intro "1.IH") simp_all
    show ?thesis
    proof (cases "length data \<le> B")
      case True
      with False "1.prems" have "(length data + B - 1) div B = 1"
        by (cases data) (auto simp: div_eq_dividend_iff Suc_le_eq div_nat_eqI)
      with True False "1.prems" ih show ?thesis
        by (simp add: split_blocks_step)
    next
      case gt: False
      then have "length data + B - 1 = (length data - B + B - 1) + B"
        using "1.prems" by simp
      then have "(length data + B - 1) div B = Suc ((length data - B + B - 1) div B)"
        using "1.prems" by (metis One_nat_def Suc_eq_plus1 div_add_self2)
      with False "1.prems" ih show ?thesis
        by (simp add: split_blocks_step)
    qed
  qed
qed

lemma frame_bits_zero_widths:
  "(\<And>blk. blk \<in> set blks \<Longrightarrow> significant_bits sg blk = 0) \<Longrightarrow>
     frame_bits sg 0 blks = replicate (length blks) True \<and> max_width sg m blks = m"
proof (induction blks)
  case Nil
  then show ?case by (simp add: max_width_def)
next
  case (Cons blk blks)
  then show ?case
    by (simp add: block_bits_def header_bits_def concat_fields_0 max_width_Cons)
qed


lemma get_bit_resize_pad:
  "8 * length buf \<le> i \<Longrightarrow> i < 8 * n \<Longrightarrow> \<not> get_bit (resize n buf) i"
proof -
  assume a: "8 * length buf \<le> i" "i < 8 * n"
  then have "\<not> i div 8 < length buf" "i div 8 - length buf < n - length buf"
    by auto
  then show ?thesis
    by (simp add: get_bit_def resize_def nth_append)
qed

lemma get_bit_ones_bytes:
  assumes "i < 8 * (1 + k div 8)"
  shows "get_bit (replicate (k div 8) 255 @ [mask (k mod 8)]) i = (i < k)"
proof (cases "i div 8 < k div 8")
  case True
  then have "i < k"
    by (metis div_le_mono leD leI)
  moreover have "bit (255 :: byte) (i mod 8)"
  proof -
    have "(255 :: byte) = - 1" by simp
    then show ?thesis by (simp only: bit_minus_1_iff) simp
  qed
  ultimately show ?thesis
    using True by (simp add: get_bit_def nth_append)
next
  case False
  with assms have eq: "i div 8 = k div 8"
    by auto
  then have "(i < k) = (i mod 8 < k mod 8)"
    by (metis add_less_cancel_left mult_div_mod_eq)
  with eq show ?thesis
    by (simp add: get_bit_def nth_append bit_mask_iff)
qed

lemma ones_bytes:
  assumes "k \<le> 8 * m"
  shows "resize (Suc (k div 8)) (or_bits (replicate m 0) 0 (replicate k True))
           = replicate (k div 8) 255 @ [mask (k mod 8)]"
proof (rule byte_list_eqI)
  show "length (resize (Suc (k div 8)) (or_bits (replicate m 0) 0 (replicate k True)))
          = length (replicate (k div 8) 255 @ [mask (k mod 8) :: byte])"
    by (simp add: length_resize)
next
  fix i
  assume "i < 8 * length (resize (Suc (k div 8)) (or_bits (replicate m 0) 0 (replicate k True)))"
  then have i: "i < 8 * (1 + k div 8)"
    by (simp add: length_resize)
  have z: "\<not> get_bit (replicate m 0) j" if "j < 8 * m" for j
    using that by (simp add: get_bit_def div8_less)
  have "get_bit (resize (Suc (k div 8)) (or_bits (replicate m 0) 0 (replicate k True))) i = (i < k)"
  proof (cases "i < 8 * m")
    case True
    with i assms show ?thesis
      by (auto simp: get_bit_resize length_or_bits get_bit_or_bits z)
  next
    case False
    with i assms show ?thesis
      by (simp add: get_bit_resize_pad length_or_bits)
  qed
  with i show "get_bit (resize (Suc (k div 8)) (or_bits (replicate m 0) 0 (replicate k True))) i
                 = get_bit (replicate (k div 8) 255 @ [mask (k mod 8)]) i"
    by (simp add: get_bit_ones_bytes)
qed

lemma Terse_data_zeros:
  fixes z :: "'a::len word"
  assumes "z = 0" and "B \<noteq> 0" and "k = (n + B - 1) div B"
    and "k \<le> 8 * buffer_bound n (LENGTH('a) div 8) B"
  shows "frame_bits sg 0 (split_blocks B (replicate n z)) = replicate k True"
    and "Terse_data sg (replicate n z) B
           = Inr \<lparr>d_signed = sg, d_block = B, d_size = n, d_prolix_bits = 0, d_dim = [],
                   d_terse_data = replicate (k div 8) 255 @ [mask (k mod 8)],
                   d_terse_frames = [0]\<rparr>"
proof -
  let ?blks = "split_blocks B (replicate n z)"
  have w: "significant_bits sg blk = 0" if "blk \<in> set ?blks" for blk
    using set_split_blocks [OF that] assms(1) by (intro significant_bits_zeros) auto
  have fb: "frame_bits sg 0 ?blks = replicate (length ?blks) True"
    and mw: "max_width sg 0 ?blks = 0"
    using frame_bits_zero_widths [of ?blks sg 0] w by simp_all
  have len: "length ?blks = k"
    using assms(2,3) by (simp add: length_split_blocks)
  from fb len show "frame_bits sg 0 ?blks = replicate k True"
    by simp
  with assms(2,4) mw show "Terse_data sg (replicate n z) B
           = Inr \<lparr>d_signed = sg, d_block = B, d_size = n, d_prolix_bits = 0, d_dim = [],
                   d_terse_data = replicate (k div 8) 255 @ [mask (k mod 8)],
                   d_terse_frames = [0]\<rparr>"
    by (simp add: Terse_data_def f_compress_eq ones_bytes)
qed

text \<open>
  Claim C9 (scenario S2), as amended: 262144 zeros pushed as one unsigned frame with block
  size 12 are encoded as 21846 blocks whose headers, the first one included, are the single
  repeat bit 1 (the width 0 of the first block equals the initial previous width 0), with
  no value bits; the packed buffer is 2730 bytes \<open>0xFF\<close> and one byte \<open>0x3F\<close>, which is
  \<open>1 + 21846 div 8 = 2731\<close> bytes.
\<close>

theorem all_zeros_scenario:
  "frame_bits False 0 (split_blocks 12 (replicate 262144 (0 :: 'a::len word)))
     = replicate 21846 True
   \<and> Terse_data False (replicate 262144 (0 :: 'a word)) 12
     = Inr \<lparr>d_signed = False, d_block = 12, d_size = 262144, d_prolix_bits = 0, d_dim = [],
             d_terse_data = replicate 2730 255 @ [63], d_terse_frames = [0]\<rparr>
   \<and> terse_size \<lparr>d_signed = False, d_block = 12, d_size = 262144, d_prolix_bits = 0, d_dim = [],
                  d_terse_data = replicate 2730 255 @ [63], d_terse_frames = [0]\<rparr> = 2731"
proof -
  have k: "(21846 :: nat) = (262144 + 12 - 1) div 12"
    by simp
  have b: "21846 \<le> 8 * buffer_bound 262144 (LENGTH('a) div 8) 12"
    by (simp add: buffer_bound_def)
  have m: "(mask (21846 mod 8) :: byte) = 63" "(21846 :: nat) div 8 = 2730"
    by (simp_all add: mask_eq_exp_minus_1)
  from Terse_data_zeros [where ?'a = 'a, OF refl _ k b, of False] m show ?thesis
    by (simp add: terse_size_def)
qed

text \<open>
  The claim as stated does not hold: the header of the first block is not the 4-bit
  announcement of width 0 but the repeat bit, and the packed size is 2731 bytes, not the
  2732 bytes of \<open>ceil((1 + 4 + 21844) / 8)\<close>.
\<close>

theorem all_zeros_first_header_and_size:
  "header_bits 0 (significant_bits False (take 12 (replicate 262144 (0 :: 16 word)))) = [True]
   \<and> map_sum id terse_size (Terse_data False (replicate 262144 (0 :: 16 word)) 12) = Inr 2731
   \<and> (1 + 4 + 21844 + 7) div 8 = (2732 :: nat)"
proof -
  have k: "(21846 :: nat) = (262144 + 12 - 1) div 12"
    by simp
  have b: "21846 \<le> 8 * buffer_bound 262144 (LENGTH(16) div 8) 12"
    by (simp add: buffer_bound_def)
  have "significant_bits False (take 12 (replicate 262144 (0 :: 16 word))) = 0"
    by (intro significant_bits_zeros) auto
  moreover have "(21846 :: nat) div 8 = 2730"
    by simp
  ultimately show ?thesis
    using Terse_data_zeros(2) [where ?'a = 16, OF refl _ k b, of False]
    by (simp add: terse_size_def header_bits_def)
qed


section \<open>Round trip\<close>

subsection \<open>Values fit the width of their block\<close>




lemma fold_or_upper:
  fixes s0 :: "'a::len word"
  assumes "uint s0 < 2 ^ k" and "\<And>x. x \<in> set blk \<Longrightarrow> uint (g x) < 2 ^ k"
  shows "uint (fold (\<lambda>p s. s OR g p) blk s0) < 2 ^ k"
  using assms
proof (induction blk arbitrary: s0)
  case Nil
  then show ?case by simp
next
  case (Cons p ps)
  have "uint (s0 OR g p) < 2 ^ k"
    using Cons.prems by (simp add: uint_or OR_upper)
  with Cons show ?case by simp
qed

lemma uint_eq_sint: "0 \<le> sint w \<Longrightarrow> uint w = sint w"
proof -
  assume "0 \<le> sint w"
  moreover have "sint w < 2 ^ LENGTH('a)"
    using sint_lt [of w] by (smt (verit) power_increasing_iff diff_le_self)
  moreover have "uint w = take_bit LENGTH('a) (sint w)"
    by (rule uint_sint)
  ultimately show ?thesis
    by (simp add: take_bit_int_eq_self)
qed


lemma uint_wabs:
  fixes x :: "'a::len word"
  assumes "sint x \<noteq> - (2 ^ (LENGTH('a) - 1))"
  shows "uint (wabs x) = \<bar>sint x\<bar>"
proof (cases "sint x < 0")
  case False
  then show ?thesis
    by (simp add: wabs_def uint_eq_sint)
next
  case True
  have lo: "- (2 ^ (LENGTH('a) - 1)) < sint x"
    using assms sint_ge [of x] by linarith
  have "sint (- x) = signed_take_bit (LENGTH('a) - 1) (- sint x)"
    by (rule sint_word_minus)
  also have "\<dots> = - sint x"
    using True lo by (intro signed_take_bit_int_eq_self) linarith+
  finally have s: "sint (- x) = - sint x" .
  with True have "uint (- x) = sint (- x)"
    by (intro uint_eq_sint) simp
  with s True show ?thesis
    by (simp add: wabs_def)
qed

lemma uint_wabs_less:
  fixes x :: "'a::len word"
  assumes "sint x \<noteq> - (2 ^ (LENGTH('a) - 1))"
  shows "uint (wabs x) < 2 ^ (LENGTH('a) - 1)"
  using uint_wabs [OF assms] assms sint_ge [of x] sint_lt [of x] by linarith




text \<open>
  The width that the code computes is the width of the specification (\<open>spec_width\<close>) for
  every unsigned block, and for every signed block that does not hold the most negative
  value of its type.
\<close>

lemma f_highest_set_bit_u_bit_length: "f_highest_set_bit_u v = bit_length (unat v)"
proof (induction v rule: f_highest_set_bit_u.induct)
  case (1 val)
  show ?case
  proof (cases "val = 0")
    case True
    then show ?thesis by (simp add: f_highest_set_bit_u.simps bit_length.simps)
  next
    case False
    have "unat (drop_bit 1 val) = drop_bit 1 (unat val)"
      by (rule unat_drop_bit_eq)
    also have "\<dots> = unat val div 2"
      by (simp add: drop_bit_eq_div)
    finally have d: "unat (drop_bit 1 val) = unat val div 2" .
    from False have nz: "unat val \<noteq> 0"
      by (simp add: unat_eq_zero)
    have "f_highest_set_bit_u val = Suc (f_highest_set_bit_u (drop_bit 1 val))"
      using False by (subst f_highest_set_bit_u.simps) simp
    also have "\<dots> = Suc (bit_length (unat val div 2))"
      using "1.IH" [OF False] d by simp
    also have "\<dots> = bit_length (unat val)"
      using nz by (subst (2) bit_length.simps) simp
    finally show ?thesis .
  qed
qed

lemma unat_fold_or:
  fixes s0 :: "'a::len word"
  assumes "\<And>x. x \<in> set blk \<Longrightarrow> unat (g x) = h x"
  shows "unat (fold (\<lambda>p s. s OR g p) blk s0) = fold (\<lambda>p acc. acc OR h p) blk (unat s0)"
  using assms
proof (induction blk arbitrary: s0)
  case Nil
  then show ?case by simp
next
  case (Cons p ps)
  have "unat (s0 OR g p) = unat s0 OR h p"
    using Cons.prems [of p] by (simp add: unsigned_or_eq)
  with Cons.IH [of "s0 OR g p"] Cons.prems show ?case
    by simp
qed

lemma significant_bits_unsigned:
  "significant_bits False blk = spec_width False blk"
  using unat_fold_or [of blk "\<lambda>p. p" unat 0]
  by (simp add: significant_bits_def block_setbits_def f_highest_set_bit_def spec_width_def
                f_highest_set_bit_u_bit_length)

lemma significant_bits_signed:
  fixes blk :: "'a::len word list"
  assumes "\<And>y. y \<in> set blk \<Longrightarrow> sint y \<noteq> - (2 ^ (LENGTH('a) - 1))"
  shows "significant_bits True blk = spec_width True blk"
proof -
  let ?s = "fold (\<lambda>p s. s OR wabs p) blk (0 :: 'a word)"
  let ?m = "fold (\<lambda>v acc. acc OR nat \<bar>sint v\<bar>) blk 0"
  have "uint (wabs y) < 2 ^ (LENGTH('a) - 1)" if "y \<in> set blk" for y
    using assms [OF that] by (rule uint_wabs_less)
  moreover have "uint (0 :: 'a word) < 2 ^ (LENGTH('a) - 1)"
    by simp
  ultimately have "uint ?s < 2 ^ (LENGTH('a) - 1)"
    by (intro fold_or_upper)
  then have "signed_take_bit (LENGTH('a) - 1) (uint ?s) = uint ?s"
    by (intro signed_take_bit_int_eq_self) (use uint_ge_0 [of ?s] in linarith)+
  then have "sint ?s = uint ?s"
    by (simp add: sint_uint)
  then have pos: "\<not> sint ?s < 0"
    by simp
  then have w: "significant_bits True blk
                  = (if ?s = 0 then 0 else 1 + f_highest_set_bit_u ?s)"
    by (simp add: significant_bits_def block_setbits_def f_highest_set_bit_def
                  f_highest_set_bit_s_def wabs_def)
  have "unat (wabs y) = nat \<bar>sint y\<bar>" if "y \<in> set blk" for y
    using uint_wabs [OF assms [OF that]] by (simp add: unat_eq_nat_uint)
  then have m: "unat ?s = ?m"
    using unat_fold_or [of blk wabs "\<lambda>v. nat \<bar>sint v\<bar>" 0] by simp
  then have z: "?s = 0 \<longleftrightarrow> ?m = 0"
    by (metis unat_eq_zero)
  show ?thesis
    unfolding w spec_width_def using m z
    by (simp add: Let_def f_highest_set_bit_u_bit_length)
qed

subsection \<open>The first frame\<close>



lemma max_width_ge:
  "m \<le> max_width sg m blks
   \<and> (\<forall>blk\<in>set blks. significant_bits sg blk \<le> max_width sg m blks)"
proof (induction blks arbitrary: m)
  case Nil
  then show ?case by (simp add: max_width_def)
next
  case (Cons blk blks)
  from Cons.IH [of "max m (significant_bits sg blk)"] show ?case
    by (auto simp: max_width_Cons)
qed

lemma max_width_mono: "m \<le> m' \<Longrightarrow> max_width sg m blks \<le> max_width sg m' blks"
  by (induction blks arbitrary: m m') (simp_all add: max_width_def max.mono)

text \<open>
  \<^verbatim>\<open>bits_per_val\<close> after a push is the largest of its value before and the widths of the
  blocks of the pushed frame; it never decreases.
\<close>

lemma push_back_prolix_bits:
  fixes data :: "'a::len word list"
  assumes "push_back t sg data = Inr t'"
  shows "bits_per_val t' = max_width sg (bits_per_val t) (split_blocks (d_block t) data)"
    and "bits_per_val t \<le> bits_per_val t'"
proof -
  from assms obtain t0 where t0: "f_compress t0 sg data = Inr t'" "d_size t0 = length data"
      "d_block t0 = d_block t" "d_prolix_bits t0 = d_prolix_bits t"
    by (auto simp: push_back_def split: if_splits)
  from f_compress_stored(4) [OF t0(1)] t0(2-)
  show "bits_per_val t' = max_width sg (bits_per_val t) (split_blocks (d_block t) data)"
    by (simp add: bits_per_val_def)
  then show "bits_per_val t \<le> bits_per_val t'"
    using max_width_ge [of "bits_per_val t" sg "split_blocks (d_block t) data"] by simp
qed

lemma Terse_data_prolix_bits:
  fixes data :: "'a::len word list"
  assumes "Terse_data sg data B = Inr t'"
  shows "bits_per_val t' = max_width sg 0 (split_blocks B data)"
  using f_compress_stored(4) [OF assms [unfolded Terse_data_def]]
  by (simp add: bits_per_val_def)








text \<open>
  The theorem is silent about three defects of the code, which these evaluations show.
  \<^item> Three one-value frames \<open>[1]\<close>, \<open>[2]\<close>, \<open>[3]\<close> of unsigned bytes with block size 1:
    unpacking frame 2 yields \<open>[2]\<close>. \<^verbatim>\<open>f_find_terse_frame\<close> stores the offset of a frame
    relative to the start of the frame before it and then uses it as an offset into the
    whole buffer.
  \<^item> One frame \<open>[-128, 127]\<close> of signed bytes with block size 2: unpacking it into signed
    bytes yields \<open>[0, -1]\<close>, because the block is written with width 2.
  \<^item> One frame holding the 32-bit unsigned value \<open>0xFFFFFFFF\<close> with the default block
    size 12: the 44 bits of the frame do not fit into the 5 bytes that \<^verbatim>\<open>f_compress\<close>
    reserves.
\<close>

theorem roundtrip_fails_on_code:
  "and_then (Terse_data False [1 :: 8 word] 1) (\<lambda>t.
     and_then (push_back t False [2 :: 8 word]) (\<lambda>t.
       and_then (push_back t False [3 :: 8 word]) (\<lambda>t.
         map_sum id fst (prolix t False 2 :: error + 8 word list \<times> terse))))
     = Inr [2]
   \<and> and_then (Terse_data True [- 128, 127 :: 8 word] 2) (\<lambda>t.
         map_sum id fst (prolix t True 0 :: error + 8 word list \<times> terse))
     = Inr [0, - 1]
   \<and> Terse_data False [0xFFFFFFFF :: 32 word] 12 = Inl OutOfBounds"
  by code_simp

end
